theory Spec2Isabelle
  imports Complex_Main "HOL-Library.Word" "HOL-Library.Log_Nat"
begin

section \<open>Document scan quality engine\<close>

text \<open>
  A shallow embedding of \<^verbatim>\<open>DocumentScanner\<close> (\<^verbatim>\<open>src/unnamed/part_001\<close>, imported by the
  camera component as \<^verbatim>\<open>@/utils/documentScanner\<close>) and of the capture controller
  \<^verbatim>\<open>DocumentCaptureCamera\<close>
  (\<^verbatim>\<open>src/src/components/document-upload/DocumentCaptureCamera.tsx\<close>).

  Arithmetic. The source computes in JavaScript numbers, that is IEEE 754 binary64, and
  stores the luma buffer of the blur score in a \<^verbatim>\<open>Float32Array\<close> (binary32). The
  embedding represents a finite number by the rational it denotes and rounds the result of
  every arithmetic operation of the source to the nearest binary64 value, ties to even
  (\<open>fl64\<close>), and every store into the \<^verbatim>\<open>Float32Array\<close> to the nearest binary32 value
  (\<open>fl32\<close>). The values a division can produce beyond the finite ones (\<^verbatim>\<open>NaN\<close>, the
  two infinities) are constructors of the type \<open>number\<close>; the two zeros are identified,
  the source only compares and displays them. The rounding keeps the precision and lets
  the exponent range free: on a frame whose data fits a typed array (fewer than \<open>2^53\<close>
  bytes) every non-zero value of the scanner has a magnitude between \<open>2^-110\<close> and
  \<open>2^80\<close>, far inside the binary64 and, for the luma buffer, the binary32 range, so no
  operation overflows or underflows. Image dimensions, loop counters and array indices are
  naturals and pixel coordinates are integers; the platform keeps them below \<open>2^32\<close>,
  where they are exact in binary64.
\<close>

subsection \<open>Rounding to binary64 and binary32\<close>

text \<open>Rounding a rational to the nearest integer, ties to even.\<close>

definition rne :: "rat \<Rightarrow> int" where
  "rne x =
     (let f = \<lfloor>x\<rfloor>; d = x - of_int f
      in if d < 1 / 2 then f else if 1 / 2 < d then f + 1 else if even f then f else f + 1)"

text \<open>The binary exponent of a positive rational: \<open>2^(ilog2 x) \<le> x < 2^(ilog2 x + 1)\<close>.\<close>

definition ilog2 :: "rat \<Rightarrow> int" where
  "ilog2 x =
     (let (n, d) = quotient_of x; k = bitlen n - bitlen d
      in if 2 powi k \<le> x then k else k - 1)"

text \<open>
  Rounding to \<open>p\<close> significant bits: the nearest multiple of \<open>2^(ilog2 |x| - (p - 1))\<close>,
  ties to even.
\<close>

definition fl :: "nat \<Rightarrow> rat \<Rightarrow> rat" where
  "fl p x =
     (if x = 0 then 0
      else (let e = ilog2 \<bar>x\<bar> - (int p - 1)
            in of_int (rne (x / 2 powi e)) * 2 powi e))"

definition fl64 :: "rat \<Rightarrow> rat" where
  "fl64 = fl 53"

definition fl32 :: "rat \<Rightarrow> rat" where
  "fl32 = fl 24"

subsection \<open>JavaScript numbers\<close>

text \<open>\<^verbatim>\<open>a + b\<close>, \<^verbatim>\<open>a - b\<close> and \<^verbatim>\<open>a * b\<close> on finite operands.\<close>

definition js_add :: "rat \<Rightarrow> rat \<Rightarrow> rat" where
  "js_add a b = fl64 (a + b)"

definition js_sub :: "rat \<Rightarrow> rat \<Rightarrow> rat" where
  "js_sub a b = fl64 (a - b)"

definition js_mul :: "rat \<Rightarrow> rat \<Rightarrow> rat" where
  "js_mul a b = fl64 (a * b)"

datatype number = NaN | PosInf | NegInf | Fin rat

text \<open>\<^verbatim>\<open>a / b\<close> on finite operands.\<close>

definition js_div :: "rat \<Rightarrow> rat \<Rightarrow> number" where
  "js_div a b =
     (if b = 0 then (if a = 0 then NaN else if 0 < a then PosInf else NegInf)
      else Fin (fl64 (a / b)))"

text \<open>\<^verbatim>\<open>n * c\<close> for a finite positive constant \<open>c\<close> (the source multiplies by 100).\<close>

fun js_times :: "number \<Rightarrow> rat \<Rightarrow> number" where
  "js_times NaN c = NaN"
| "js_times PosInf c = PosInf"
| "js_times NegInf c = NegInf"
| "js_times (Fin a) c = Fin (js_mul a c)"

text \<open>\<^verbatim>\<open>n > c\<close> and \<^verbatim>\<open>n < c\<close> against a finite constant; every comparison with
  \<^verbatim>\<open>NaN\<close> is false.\<close>

fun js_gt :: "number \<Rightarrow> rat \<Rightarrow> bool" where
  "js_gt NaN c = False"
| "js_gt PosInf c = True"
| "js_gt NegInf c = False"
| "js_gt (Fin a) c = (c < a)"

fun js_lt :: "number \<Rightarrow> rat \<Rightarrow> bool" where
  "js_lt NaN c = False"
| "js_lt PosInf c = False"
| "js_lt NegInf c = True"
| "js_lt (Fin a) c = (a < c)"

subsection \<open>Frames\<close>

type_synonym byte = "8 word"

text \<open>
  \<^verbatim>\<open>ImageData\<close>: \<open>data\<close> is the \<^verbatim>\<open>Uint8ClampedArray\<close> of interleaved R, G, B, A bytes in
  row-major order. The platform builds it with \<open>length data = 4 * width * height\<close> and
  positive dimensions; \<open>wf_ImageData\<close> records that.
\<close>

record ImageData =
  data :: "byte list"
  width :: nat
  height :: nat

definition wf_ImageData :: "ImageData \<Rightarrow> bool" where
  "wf_ImageData img =
     (0 < width img \<and> 0 < height img \<and> length (data img) = 4 * width img * height img)"

text \<open>
  \<^verbatim>\<open>0.299 * data[i] + 0.587 * data[i + 1] + 0.114 * data[i + 2]\<close>: each decimal literal
  denotes the nearest binary64 value, the three products are rounded, then the two sums
  from left to right.
\<close>

definition luma :: "byte \<Rightarrow> byte \<Rightarrow> byte \<Rightarrow> rat" where
  "luma r g b =
     js_add (js_add (js_mul (fl64 (299 / 1000)) (of_nat (unat r)))
                    (js_mul (fl64 (587 / 1000)) (of_nat (unat g))))
            (js_mul (fl64 (114 / 1000)) (of_nat (unat b)))"

subsection \<open>calculateBlurScore\<close>

text \<open>
  The grayscale loop \<^verbatim>\<open>for (let i = 0; i < data.length; i += 4) gray[i / 4] = ...\<close>.
  The list argument is \<^verbatim>\<open>data\<close> from index \<open>i\<close> on and \<open>k\<close> is \<open>i / 4\<close>. A store
  beyond the end of a typed array is ignored, as \<open>list_update\<close> does. The store into
  the \<^verbatim>\<open>Float32Array\<close> rounds to binary32. The loop ends when the data is used up
  (second equation); a frame's data holds whole pixels only.
\<close>

fun grayscale :: "byte list \<Rightarrow> nat \<Rightarrow> rat list \<Rightarrow> rat list" where
  "grayscale (r # g # b # a # rest) k gray =
     grayscale rest (Suc k) (gray[k := fl32 (luma r g b)])"
| "grayscale rest k gray = gray"

text \<open>
  The value of an expression \<open>- a - b - c - d + 8 * e - f - g - h - i\<close> of the source:
  JavaScript evaluates it from left to right and rounds after each operation (the unary
  minus is exact).
\<close>

definition kernel :: "rat \<Rightarrow> rat \<Rightarrow> rat \<Rightarrow> rat \<Rightarrow> rat \<Rightarrow> rat \<Rightarrow> rat \<Rightarrow> rat \<Rightarrow> rat \<Rightarrow> rat" where
  "kernel a b c d e f g h i =
     js_sub (js_sub (js_sub (js_sub
       (js_add (js_sub (js_sub (js_sub (- a) b) c) d) (js_mul 8 e)) f) g) h) i"

text \<open>The Laplacian at index \<open>idx\<close>, with the operands of the source in their order.\<close>

definition laplacian :: "rat list \<Rightarrow> nat \<Rightarrow> nat \<Rightarrow> rat" where
  "laplacian gray w idx =
     kernel (gray ! (idx - w - 1)) (gray ! (idx - w)) (gray ! (idx - w + 1))
            (gray ! (idx - 1)) (gray ! idx) (gray ! (idx + 1))
            (gray ! (idx + w - 1)) (gray ! (idx + w)) (gray ! (idx + w + 1))"

text \<open>
  The inner loop \<^verbatim>\<open>for (let x = 1; x < width - 1; x++)\<close> and the outer loop
  \<^verbatim>\<open>for (let y = 1; y < height - 1; y++)\<close>, threading \<open>variance\<close>. The counters start
  at 1, so the truncated subtraction of naturals decides the loop tests as the source's
  does, also for a dimension of 0.
\<close>

function blur_row :: "rat list \<Rightarrow> nat \<Rightarrow> nat \<Rightarrow> nat \<Rightarrow> rat \<Rightarrow> rat" where
  "blur_row gray w y x variance =
     (if x < w - 1
      then (let idx = y * w + x;
                lap = laplacian gray w idx
            in blur_row gray w y (x + 1) (js_add variance (js_mul lap lap)))
      else variance)"
  by pat_completeness auto
termination
  by (relation "measure (\<lambda>(gray, w, y, x, variance). w - x)") auto

function blur_rows :: "rat list \<Rightarrow> nat \<Rightarrow> nat \<Rightarrow> nat \<Rightarrow> rat \<Rightarrow> rat" where
  "blur_rows gray w h y variance =
     (if y < h - 1
      then blur_rows gray w h (y + 1) (blur_row gray w y 1 variance)
      else variance)"
  by pat_completeness auto
termination
  by (relation "measure (\<lambda>(gray, w, h, y, variance). h - y)") auto

declare blur_row.simps [simp del] blur_rows.simps [simp del]

definition calculateBlurScore :: "ImageData \<Rightarrow> number" where
  "calculateBlurScore imageData =
     (let w = width imageData; h = height imageData;
          gray = grayscale (data imageData) 0 (replicate (w * h) 0);
          variance = blur_rows gray w h 1 0
      in js_div variance (js_mul (js_sub (of_nat w) 2) (js_sub (of_nat h) 2)))"

subsection \<open>detectDocumentEdges\<close>

text \<open>A point \<^verbatim>\<open>{ x, y }\<close>; the fields are named \<open>px\<close> and \<open>py\<close>.\<close>

record Point =
  px :: int
  py :: int

text \<open>
  The binarisation loop: \<^verbatim>\<open>binary[i / 4] = gray > 128 ? 255 : 0\<close> over a zero-filled
  \<^verbatim>\<open>Uint8Array\<close>.
\<close>

fun binarize :: "byte list \<Rightarrow> nat \<Rightarrow> byte list \<Rightarrow> byte list" where
  "binarize (r # g # b # a # rest) k binary =
     binarize rest (Suc k) (binary[k := (if 128 < luma r g b then 255 else 0)])"
| "binarize rest k binary = binary"

text \<open>The variables updated while scanning.\<close>

record scan =
  topLeft :: Point
  bottomRight :: Point
  edgeCount :: nat

text \<open>The body of \<^verbatim>\<open>if (binary[idx] === 0) { ... }\<close> at the sample \<open>(x, y)\<close>.\<close>

definition mark :: "nat \<Rightarrow> nat \<Rightarrow> scan \<Rightarrow> scan" where
  "mark x y s =
     (let s1 = s\<lparr>edgeCount := edgeCount s + 1\<rparr>;
          s2 = (if int x < px (topLeft s1)
                then s1\<lparr>topLeft := (topLeft s1)\<lparr>px := int x\<rparr>\<rparr> else s1);
          s3 = (if int y < py (topLeft s2)
                then s2\<lparr>topLeft := (topLeft s2)\<lparr>py := int y\<rparr>\<rparr> else s2);
          s4 = (if px (bottomRight s3) < int x
                then s3\<lparr>bottomRight := (bottomRight s3)\<lparr>px := int x\<rparr>\<rparr> else s3)
      in (if py (bottomRight s4) < int y
          then s4\<lparr>bottomRight := (bottomRight s4)\<lparr>py := int y\<rparr>\<rparr> else s4))"

text \<open>
  \<^verbatim>\<open>for (let x = 0; x < width; x += 4)\<close> inside
  \<^verbatim>\<open>for (let y = 0; y < height; y += 4)\<close>.
\<close>

function scan_row :: "byte list \<Rightarrow> nat \<Rightarrow> nat \<Rightarrow> nat \<Rightarrow> scan \<Rightarrow> scan" where
  "scan_row binary w y x s =
     (if x < w
      then (let idx = y * w + x
            in scan_row binary w y (x + 4) (if binary ! idx = 0 then mark x y s else s))
      else s)"
  by pat_completeness auto
termination
  by (relation "measure (\<lambda>(binary, w, y, x, s). w - x)") auto

function scan_rows :: "byte list \<Rightarrow> nat \<Rightarrow> nat \<Rightarrow> nat \<Rightarrow> scan \<Rightarrow> scan" where
  "scan_rows binary w h y s =
     (if y < h
      then scan_rows binary w h (y + 4) (scan_row binary w y 0 s)
      else s)"
  by pat_completeness auto
termination
  by (relation "measure (\<lambda>(binary, w, h, y, s). h - y)") auto

declare scan_row.simps [simp del] scan_rows.simps [simp del]

definition detectDocumentEdges :: "ImageData \<Rightarrow> Point list option \<times> number" where
  "detectDocumentEdges imageData =
     (let w = width imageData; h = height imageData;
          binary = binarize (data imageData) 0 (replicate (w * h) 0);
          minArea = js_mul (js_mul (of_nat w) (of_nat h)) (25 / 100);
          s = scan_rows binary w h 0
                \<lparr>topLeft = \<lparr>px = int w, py = int h\<rparr>,
                 bottomRight = \<lparr>px = 0, py = 0\<rparr>,
                 edgeCount = 0\<rparr>;
          area = js_mul (js_sub (of_int (px (bottomRight s))) (of_int (px (topLeft s))))
                        (js_sub (of_int (py (bottomRight s))) (of_int (py (topLeft s))));
          accepted = (minArea < area \<and> 100 < edgeCount s);
          largestArea = (if accepted then area else 0);
          corners = (if accepted
                     then Some [topLeft s,
                                \<lparr>px = px (bottomRight s), py = py (topLeft s)\<rparr>,
                                bottomRight s,
                                \<lparr>px = px (topLeft s), py = py (bottomRight s)\<rparr>]
                     else None);
          fillPercentage = js_times (js_div largestArea (js_mul (of_nat w) (of_nat h))) 100
      in (corners, fillPercentage))"

subsection \<open>checkQuality\<close>

record ScanQuality =
  isSharp :: bool
  blurScore :: number
  hasDocumentEdges :: bool
  documentCorners :: "Point list option"
  qualityMessage :: string
  fillPercentage :: number

text \<open>
  The video element as \<^verbatim>\<open>checkQuality\<close> reads it: its dimensions and the raster that
  \<^verbatim>\<open>drawImage\<close> puts on the canvas, of which \<^verbatim>\<open>getImageData\<close> returns the bytes.
\<close>

record video =
  videoWidth :: nat
  videoHeight :: nat
  raster :: "byte list"

datatype dom_error = IndexSizeError

text \<open>
  \<^verbatim>\<open>this.ctx.getImageData(0, 0, videoWidth, videoHeight)\<close>: the canvas call of the
  source throws \<^verbatim>\<open>IndexSizeError\<close> when the requested width or height is zero
  (canvas specification); otherwise it returns the frame.
\<close>

definition getImageData :: "video \<Rightarrow> dom_error + ImageData" where
  "getImageData v =
     (if videoWidth v = 0 \<or> videoHeight v = 0 then Inl IndexSizeError
      else Inr \<lparr>data = raster v, width = videoWidth v, height = videoHeight v\<rparr>)"

text \<open>The four guidance strings, as the UTF-8 bytes of the source's literals.\<close>

definition msg_position :: string where
  "msg_position = [CHR 0xF0, CHR 0x9F, CHR 0x93, CHR 0x84] @ '' Position document in frame''"

definition msg_closer :: string where
  "msg_closer = [CHR 0xF0, CHR 0x9F, CHR 0x93, CHR 0x90] @ '' Move closer''"

definition msg_blurry :: string where
  "msg_blurry =
     [CHR 0xE2, CHR 0x9A, CHR 0xA0, CHR 0xEF, CHR 0xB8, CHR 0x8F] @ '' Hold steady - image is blurry''"

definition msg_ready :: string where
  "msg_ready = [CHR 0xE2, CHR 0x9C, CHR 0x93] @ '' Ready to capture''"

definition checkQuality :: "video \<Rightarrow> dom_error + ScanQuality" where
  "checkQuality videoElement =
     (case getImageData videoElement of
        Inl e \<Rightarrow> Inl e
      | Inr imageData \<Rightarrow>
          (let blurScore = calculateBlurScore imageData;
               isSharp = js_gt blurScore 100;
               (corners, fillPercentage) = detectDocumentEdges imageData;
               hasDocumentEdges = (corners \<noteq> None \<and> js_gt fillPercentage 40);
               qualityMessage =
                 (if \<not> hasDocumentEdges then msg_position
                  else if js_lt fillPercentage 40 then msg_closer
                  else if \<not> isSharp then msg_blurry
                  else msg_ready)
           in Inr \<lparr>isSharp = isSharp,
                   blurScore = blurScore,
                   hasDocumentEdges = hasDocumentEdges,
                   documentCorners = corners,
                   qualityMessage = qualityMessage,
                   fillPercentage = fillPercentage\<rparr>))"

subsection \<open>DocumentCaptureCamera\<close>

text \<open>
  The value of \<^verbatim>\<open>scanQuality?.isSharp && scanQuality?.hasDocumentEdges\<close>: an optional
  chain on \<^verbatim>\<open>null\<close> is \<^verbatim>\<open>undefined\<close>, and \<^verbatim>\<open>a && b\<close> is \<open>a\<close> when \<open>a\<close> is falsy,
  else \<open>b\<close>.
\<close>

datatype js_value = Undefined | Boolean bool

fun truthy :: "js_value \<Rightarrow> bool" where
  "truthy Undefined = False"
| "truthy (Boolean b) = b"

definition optional_chain :: "ScanQuality option \<Rightarrow> (ScanQuality \<Rightarrow> bool) \<Rightarrow> js_value" where
  "optional_chain sq field = (case sq of None \<Rightarrow> Undefined | Some q \<Rightarrow> Boolean (field q))"

definition js_and :: "js_value \<Rightarrow> js_value \<Rightarrow> js_value" where
  "js_and a b = (if truthy a then b else a)"

definition canCapture :: "ScanQuality option \<Rightarrow> js_value" where
  "canCapture sq = js_and (optional_chain sq isSharp) (optional_chain sq hasDocumentEdges)"

text \<open>The Capture button's \<^verbatim>\<open>disabled={!canCapture}\<close>.\<close>

definition capture_disabled :: "ScanQuality option \<Rightarrow> bool" where
  "capture_disabled sq = (\<not> truthy (canCapture sq))"

text \<open>
  The component's state: the three \<^verbatim>\<open>useState\<close> cells the handlers write, and
  \<open>interval\<close>, which holds when the \<^verbatim>\<open>setInterval\<close> timer of the polling effect is
  running.
\<close>

record component =
  scanQuality :: "ScanQuality option"
  capturedImage :: "string option"
  isScanning :: bool
  interval :: bool

text \<open>\<^verbatim>\<open>!capturedImage\<close>: \<^verbatim>\<open>null\<close> and the empty string are falsy.\<close>

definition no_image :: "component \<Rightarrow> bool" where
  "no_image s = (case capturedImage s of None \<Rightarrow> True | Some img \<Rightarrow> img = [])"

text \<open>
  \<^verbatim>\<open>webcamRef.current?.video\<close>. The render mounts \<^verbatim>\<open><Webcam ref={webcamRef}>\<close> exactly when
  \<^verbatim>\<open>!capturedImage\<close>; \<open>camera\<close> is the video element the mounted webcam exposes, if any.
\<close>

definition webcamRef :: "video option \<Rightarrow> component \<Rightarrow> video option" where
  "webcamRef camera s = (if no_image s then camera else None)"


text \<open>
  The polling effect, with dependencies \<^verbatim>\<open>[isScanning, scanner]\<close> (\<open>scanner\<close> never
  changes). After a render in which \<open>isScanning\<close> changed, the cleanup clears the old
  timer and the effect body starts a new one unless
  \<^verbatim>\<open>!isScanning || !webcamRef.current?.video\<close>.
\<close>

definition commit :: "video option \<Rightarrow> component \<Rightarrow> component \<Rightarrow> component" where
  "commit camera old new =
     (if isScanning new \<noteq> isScanning old
      then new\<lparr>interval := (isScanning new \<and> webcamRef camera new \<noteq> None)\<rparr>
      else new)"


text \<open>
  One firing of the timer callback. When \<^verbatim>\<open>checkQuality\<close> throws, the callback's promise
  rejects before \<^verbatim>\<open>setScanQuality\<close>.
\<close>

definition tick :: "video option \<Rightarrow> component \<Rightarrow> component" where
  "tick camera s =
     (if interval s
      then (case webcamRef camera s of
              None \<Rightarrow> s
            | Some v \<Rightarrow> (case checkQuality v of
                           Inl e \<Rightarrow> s
                         | Inr quality \<Rightarrow> s\<lparr>scanQuality := Some quality\<rparr>))
      else s)"


definition handleRetake :: "component \<Rightarrow> component" where
  "handleRetake s = s\<lparr>capturedImage := None, isScanning := True\<rparr>"


definition click_retake :: "video option \<Rightarrow> component \<Rightarrow> component" where
  "click_retake camera s =
     (if \<not> no_image s then commit camera s (handleRetake s) else s)"

text \<open>The two session states of the controller, in terms of the component's cells.\<close>

definition Scanning :: "component \<Rightarrow> bool" where
  "Scanning s = (isScanning s \<and> no_image s)"

definition Captured :: "component \<Rightarrow> bool" where
  "Captured s = (\<not> isScanning s \<and> \<not> no_image s)"

section \<open>The specification's wording\<close>

subsection \<open>In the arithmetic of the source\<close>

text \<open>
  The luma of the pixel in column \<open>x\<close>, row \<open>y\<close>, as the source evaluates
  \<open>0.299R + 0.587G + 0.114B\<close> in binary64, and the value the luma buffer holds for it.
\<close>

definition luma_at :: "ImageData \<Rightarrow> nat \<Rightarrow> nat \<Rightarrow> rat" where
  "luma_at img x y =
     (let i = 4 * (y * width img + x)
      in luma (data img ! i) (data img ! (i + 1)) (data img ! (i + 2)))"

definition gray_at :: "ImageData \<Rightarrow> nat \<Rightarrow> nat \<Rightarrow> rat" where
  "gray_at img x y = fl32 (luma_at img x y)"

text \<open>
  The response of the 8-neighbour Laplacian kernel at an interior pixel (centre weight
  \<open>+8\<close>, each of the eight surrounding cells weight \<open>-1\<close>), the cells taken row by row.
\<close>

definition kernel_response :: "ImageData \<Rightarrow> nat \<Rightarrow> nat \<Rightarrow> rat" where
  "kernel_response img x y =
     kernel (gray_at img (x - 1) (y - 1)) (gray_at img x (y - 1)) (gray_at img (x + 1) (y - 1))
            (gray_at img (x - 1) y) (gray_at img x y) (gray_at img (x + 1) y)
            (gray_at img (x - 1) (y + 1)) (gray_at img x (y + 1)) (gray_at img (x + 1) (y + 1))"

text \<open>The interior pixels (all but a 1-pixel border), row by row.\<close>

definition interior :: "ImageData \<Rightarrow> (nat \<times> nat) list" where
  "interior img =
     concat (map (\<lambda>y. map (\<lambda>x. (x, y)) [1..<width img - 1]) [1..<height img - 1])"

text \<open>
  The squared responses accumulated over the interior pixels, divided by
  \<open>(W - 2) \<times> (H - 2)\<close>; every product, sum and the quotient rounded to binary64.
\<close>

definition mean_squared_response :: "ImageData \<Rightarrow> rat" where
  "mean_squared_response img =
     fl64 (foldl (\<lambda>s (x, y). js_add s (js_mul (kernel_response img x y) (kernel_response img x y)))
                 0 (interior img)
           / of_nat ((width img - 2) * (height img - 2)))"





subsection \<open>In exact arithmetic\<close>

text \<open>The luma \<open>0.299R + 0.587G + 0.114B\<close> of the pixel in column \<open>x\<close>, row \<open>y\<close>.\<close>

definition exact_luma_at :: "ImageData \<Rightarrow> nat \<Rightarrow> nat \<Rightarrow> rat" where
  "exact_luma_at img x y =
     (let i = 4 * (y * width img + x)
      in 299 / 1000 * of_nat (unat (data img ! i))
         + 587 / 1000 * of_nat (unat (data img ! (i + 1)))
         + 114 / 1000 * of_nat (unat (data img ! (i + 2))))"

definition exact_kernel_response :: "ImageData \<Rightarrow> nat \<Rightarrow> nat \<Rightarrow> rat" where
  "exact_kernel_response img x y =
     8 * exact_luma_at img x y
     - (exact_luma_at img (x - 1) (y - 1) + exact_luma_at img x (y - 1)
        + exact_luma_at img (x + 1) (y - 1)
        + exact_luma_at img (x - 1) y + exact_luma_at img (x + 1) y
        + exact_luma_at img (x - 1) (y + 1) + exact_luma_at img x (y + 1)
        + exact_luma_at img (x + 1) (y + 1))"

text \<open>
  The sum over all interior pixels of the squared response, divided by
  \<open>(W - 2) \<times> (H - 2)\<close>.
\<close>

definition exact_mean_squared_response :: "ImageData \<Rightarrow> rat" where
  "exact_mean_squared_response img =
     (\<Sum>(x, y)\<leftarrow>interior img. (exact_kernel_response img x y)\<^sup>2)
     / of_nat ((width img - 2) * (height img - 2))"



subsection \<open>Uniform frames and runs of the timer\<close>

text \<open>A uniformly coloured frame: every pixel has the R, G, B bytes of the first one.\<close>

definition uniformly_coloured :: "ImageData \<Rightarrow> bool" where
  "uniformly_coloured img =
     list_all (\<lambda>k. data img ! (4 * k) = data img ! 0 \<and>
                    data img ! (4 * k + 1) = data img ! 1 \<and>
                    data img ! (4 * k + 2) = data img ! 2)
              [0..<width img * height img]"

text \<open>
  The timer firing once for each frame of a list in turn, the camera showing that frame.
\<close>

definition run_ticks :: "video list \<Rightarrow> component \<Rightarrow> component" where
  "run_ticks frames s = foldl (\<lambda>s v. tick (Some v) s) s frames"

section \<open>Auxiliary definitions and example values\<close>

text \<open>
  A rational is representable with \<open>p\<close> significant bits when it is \<open>m \<times> 2^e\<close> for
  integers \<open>m\<close> and \<open>e\<close> with \<open>|m| < 2^p\<close>.
\<close>

definition representable :: "nat \<Rightarrow> rat \<Rightarrow> bool" where
  "representable p x = (\<exists>m e. \<bar>m\<bar> < 2 ^ p \<and> x = of_int m * 2 powi e)"


text \<open>
  A black 2-by-2 video frame; a 3-by-3 frame with one white pixel in the middle; a dark
  3-by-3 frame whose exact mean squared response is 100; a uniformly grey 3-by-3 frame;
  and a black 44-by-44 image (121 samples, all foreground).
\<close>

definition frame2 :: video where
  "frame2 = \<lparr>videoWidth = 2, videoHeight = 2, raster = replicate 16 0\<rparr>"


definition faint3 :: video where
  "faint3 = \<lparr>videoWidth = 3, videoHeight = 3,
              raster = [8, 2, 1, 255] @ concat (replicate 3 [0, 0, 0, 255])
                       @ [0, 0, 15, 255] @ concat (replicate 4 [0, 0, 0, 255])\<rparr>"

definition grey3 :: video where
  "grey3 = \<lparr>videoWidth = 3, videoHeight = 3, raster = concat (replicate 9 [200, 200, 200, 255])\<rparr>"


text \<open>A quality value that permits capture, and component states around it.\<close>

definition ready_quality :: ScanQuality where
  "ready_quality = \<lparr>isSharp = True, blurScore = Fin 150, hasDocumentEdges = True,
      documentCorners = Some [\<lparr>px = 0, py = 0\<rparr>, \<lparr>px = 40, py = 0\<rparr>,
                              \<lparr>px = 40, py = 40\<rparr>, \<lparr>px = 0, py = 40\<rparr>],
      qualityMessage = msg_ready, fillPercentage = Fin (10000 / 121)\<rparr>"


definition captured_state :: component where
  "captured_state = \<lparr>scanQuality = Some ready_quality, capturedImage = Some ''data:,'',
      isScanning = False, interval = False\<rparr>"

section \<open>Rounding\<close>

lemma rne_floor: "\<lfloor>x\<rfloor> \<le> rne x" and rne_ceil: "rne x \<le> \<lfloor>x\<rfloor> + 1"
  by (simp_all add: rne_def Let_def)

lemma rne_of_int [simp]: "rne (of_int n) = n"
  by (simp add: rne_def)

lemma rne_ge: "of_int n \<le> x \<Longrightarrow> n \<le> rne x"
proof -
  assume "of_int n \<le> x"
  then have "n \<le> \<lfloor>x\<rfloor>" by (simp add: le_floor_iff)
  with rne_floor [of x] show ?thesis by simp
qed

lemma rne_le: "x \<le> of_int n \<Longrightarrow> rne x \<le> n"
proof (cases "x = of_int n")
  case True
  then show ?thesis by simp
next
  case False
  assume "x \<le> of_int n"
  with False have "x < of_int n" by simp
  then have "\<lfloor>x\<rfloor> < n" by (simp add: floor_less_iff)
  with rne_ceil [of x] show ?thesis by simp
qed

lemma rne_gt_half: "of_int n + 1 / 2 < x \<Longrightarrow> n + 1 \<le> rne x"
proof -
  assume a: "of_int n + 1 / 2 < x"
  then have "of_int n \<le> x" by simp
  then have f: "n \<le> \<lfloor>x\<rfloor>" by (simp add: le_floor_iff)
  show ?thesis
  proof (cases "n = \<lfloor>x\<rfloor>")
    case True
    with a have "1 / 2 < x - of_int \<lfloor>x\<rfloor>" by simp
    then show ?thesis using True by (simp add: rne_def Let_def)
  next
    case False
    with f have "n + 1 \<le> \<lfloor>x\<rfloor>" by simp
    with rne_floor [of x] show ?thesis by simp
  qed
qed

lemma pow2_pos [simp]: "0 < (2::rat) powi k"
  by (simp add: power_int_def)

lemma pow2_mono: "k \<le> l \<Longrightarrow> (2::rat) powi k \<le> 2 powi l"
  by (rule power_int_increasing) simp_all

lemma pow2_strict_mono: "k < l \<Longrightarrow> (2::rat) powi k < 2 powi l"
  by (rule power_int_strict_increasing) simp_all

lemma pow2_less_imp: "(2::rat) powi k < 2 powi l \<Longrightarrow> k < l"
  using pow2_mono [of l k] by (cases "k < l") auto

lemma pow2_add: "(2::rat) powi (k + l) = 2 powi k * 2 powi l"
  by (simp add: power_int_add)

lemma pow2_diff: "(2::rat) powi (k - l) = 2 powi k / 2 powi l"
  by (simp add: power_int_diff)

lemma bitlen_pow2_bounds:
  assumes "0 < n"
  shows "(2::rat) powi (bitlen n - 1) \<le> of_int n" "of_int n < (2::rat) powi bitlen n"
proof -
  from bitlen_bounds [OF assms]
  have 1: "2 ^ nat (bitlen n - 1) \<le> n" and 2: "n < 2 ^ nat (bitlen n)" by auto
  have pos: "1 \<le> bitlen n" using assms bitlen_eq_zero_iff [of n] bitlen_nonneg [of n] by force
  have "(2::rat) powi (bitlen n - 1) = 2 ^ nat (bitlen n - 1)"
    using pos by (simp add: power_int_nonneg_exp)
  also have "\<dots> = of_int (2 ^ nat (bitlen n - 1))" by simp
  also have "\<dots> \<le> of_int n" using 1 by (simp only: of_int_le_iff)
  finally show "(2::rat) powi (bitlen n - 1) \<le> of_int n" .
  have "of_int n < (of_int (2 ^ nat (bitlen n)) :: rat)" using 2 by (simp only: of_int_less_iff)
  also have "\<dots> = 2 powi bitlen n" using pos by (simp add: power_int_nonneg_exp)
  finally show "of_int n < (2::rat) powi bitlen n" .
qed

lemma ilog2_bounds:
  assumes "0 < x"
  shows "2 powi ilog2 x \<le> x" "x < 2 powi (ilog2 x + 1)"
proof -
  obtain n d where q: "quotient_of x = (n, d)" by (cases "quotient_of x")
  then have d: "0 < d" and x: "x = of_int n / of_int d"
    by (auto dest: quotient_of_denom_pos quotient_of_div)
  with assms have n: "0 < n" by (simp add: zero_less_divide_iff)
  let ?k = "bitlen n - bitlen d"
  have lo: "2 powi (?k - 1) \<le> x"
  proof -
    have "bitlen n - bitlen d - 1 = bitlen n - 1 - bitlen d" by simp
    then have "(2::rat) powi (?k - 1) = 2 powi (bitlen n - 1) / 2 powi bitlen d"
      by (simp only: pow2_diff)
    also have "\<dots> \<le> of_int n / 2 powi bitlen d"
      using bitlen_pow2_bounds(1) [OF n] by (simp add: divide_right_mono)
    also have "\<dots> \<le> of_int n / of_int d"
      using bitlen_pow2_bounds(2) [OF d] n d by (intro divide_left_mono) simp_all
    finally show ?thesis by (simp add: x)
  qed
  have hi: "x < 2 powi (?k + 1)"
  proof -
    have "x = of_int n / of_int d" by (rule x)
    also have "\<dots> < 2 powi bitlen n / of_int d"
      using bitlen_pow2_bounds(2) [OF n] d by (simp add: divide_strict_right_mono)
    also have "\<dots> \<le> 2 powi bitlen n / 2 powi (bitlen d - 1)"
      using bitlen_pow2_bounds(1) [OF d] d by (intro divide_left_mono) simp_all
    also have "\<dots> = 2 powi (bitlen n - (bitlen d - 1))" by (simp only: pow2_diff)
    also have "bitlen n - (bitlen d - 1) = ?k + 1" by simp
    finally show ?thesis .
  qed
  show "2 powi ilog2 x \<le> x" using lo by (simp add: ilog2_def q Let_def)
  show "x < 2 powi (ilog2 x + 1)" using hi by (auto simp: ilog2_def q Let_def not_le)
qed

lemma ilog2_unique:
  assumes "2 powi k \<le> x" "x < 2 powi (k + 1)"
  shows "ilog2 x = k"
proof -
  have pos: "0 < x" using assms(1) pow2_pos [of k] by linarith
  from ilog2_bounds [OF pos] assms
  have "(2::rat) powi k < 2 powi (ilog2 x + 1)" "(2::rat) powi ilog2 x < 2 powi (k + 1)"
    by linarith+
  then have "k < ilog2 x + 1" "ilog2 x < k + 1" by (auto dest: pow2_less_imp)
  then show ?thesis by simp
qed

lemma ilog2_ge:
  assumes "2 powi k \<le> x"
  shows "k \<le> ilog2 x"
proof -
  have pos: "0 < x" using assms pow2_pos [of k] by linarith
  from ilog2_bounds(2) [OF pos] assms have "(2::rat) powi k < 2 powi (ilog2 x + 1)" by linarith
  then have "k < ilog2 x + 1" by (rule pow2_less_imp)
  then show ?thesis by simp
qed

lemma fl_zero [simp]: "fl p 0 = 0"
  by (simp add: fl_def)

lemma fl_binade:
  assumes "2 powi k \<le> \<bar>x\<bar>" "\<bar>x\<bar> < 2 powi (k + 1)"
  shows "fl p x = of_int (rne (x / 2 powi (k - (int p - 1)))) * 2 powi (k - (int p - 1))"
proof -
  have "0 < \<bar>x\<bar>" using assms(1) pow2_pos [of k] by linarith
  then have "x \<noteq> 0" by simp
  moreover have "ilog2 \<bar>x\<bar> = k" using assms by (rule ilog2_unique)
  ultimately show ?thesis by (simp add: fl_def Let_def)
qed

lemma fl_ilog2:
  assumes "x \<noteq> 0"
  shows "fl p x = of_int (rne (x / 2 powi (ilog2 \<bar>x\<bar> - (int p - 1)))) * 2 powi (ilog2 \<bar>x\<bar> - (int p - 1))"
  using assms by (simp add: fl_def Let_def)

lemma pow2_nat: "0 \<le> j \<Longrightarrow> (2::rat) powi j = of_int (2 ^ nat j)"
  by (simp add: power_int_nonneg_exp)

lemma pow2_split: "(2::rat) powi e = 2 powi (e - k) * 2 powi k"
  using pow2_add [of "e - k" k] by simp

lemma pow2_div_diff: "(2::rat) powi k / 2 powi (k - j) = 2 powi j"
  using pow2_diff [of k "k - j"] by simp

lemma pow2_nat_eq: "(2::rat) powi int p = of_int (2 ^ p)"
  by simp

lemma pow2_pred: "0 < p \<Longrightarrow> (2::rat) powi (int p - 1) = of_int (2 ^ (p - 1))"
  using pow2_nat [of "int p - 1"] by (simp add: nat_diff_distrib')

lemma fl_exact:
  assumes "\<bar>m\<bar> < 2 ^ p"
  shows "fl p (of_int m * 2 powi e) = of_int m * 2 powi e"
proof (cases "m = 0")
  case True
  then show ?thesis by simp
next
  case False
  let ?x = "of_int m * (2::rat) powi e"
  let ?k = "ilog2 \<bar>?x\<bar>"
  have nz: "?x \<noteq> 0" using False by simp
  then have pos: "0 < \<bar>?x\<bar>" by simp
  have "\<bar>?x\<bar> = of_int \<bar>m\<bar> * 2 powi e" by (simp add: abs_mult)
  also have "\<dots> < of_int (2 ^ p) * 2 powi e"
    using assms by (intro mult_strict_right_mono) (simp_all only: of_int_less_iff pow2_pos)
  also have "\<dots> = 2 powi (int p + e)" by (simp add: pow2_add)
  finally have "\<bar>?x\<bar> < 2 powi (int p + e)" .
  with ilog2_bounds(1) [OF pos] have "(2::rat) powi ?k < 2 powi (int p + e)" by linarith
  then have "?k < int p + e" by (rule pow2_less_imp)
  then have j: "0 \<le> e - (?k - (int p - 1))" by simp
  have "?x / 2 powi (?k - (int p - 1)) = of_int m * 2 powi (e - (?k - (int p - 1)))"
    by (simp only: pow2_diff [of e] times_divide_eq_right)
  also have "\<dots> = of_int (m * 2 ^ nat (e - (?k - (int p - 1))))"
    by (simp add: pow2_nat [OF j])
  finally have "rne (?x / 2 powi (?k - (int p - 1))) = m * 2 ^ nat (e - (?k - (int p - 1)))"
    by (simp only: rne_of_int)
  then have "fl p ?x = of_int (m * 2 ^ nat (e - (?k - (int p - 1)))) * 2 powi (?k - (int p - 1))"
    by (simp only: fl_ilog2 [OF nz])
  also have "\<dots> = of_int m * (2 powi (e - (?k - (int p - 1))) * 2 powi (?k - (int p - 1)))"
    by (simp add: pow2_nat [OF j])
  also have "\<dots> = ?x" by (simp only: pow2_split [symmetric])
  finally show ?thesis .
qed

lemma fl_rep_exact: "representable p x \<Longrightarrow> fl p x = x"
  by (auto simp: representable_def fl_exact)

lemma rep_mono: "representable p x \<Longrightarrow> p \<le> q \<Longrightarrow> representable q x"
proof -
  assume "representable p x" "p \<le> q"
  then obtain m e where m: "\<bar>m\<bar> < 2 ^ p" "x = of_int m * 2 powi e" by (auto simp: representable_def)
  have "(2::int) ^ p \<le> 2 ^ q" using \<open>p \<le> q\<close> by (simp add: power_increasing)
  with m(1) have "\<bar>m\<bar> < 2 ^ q" by linarith
  with m(2) show ?thesis unfolding representable_def by blast
qed

lemma rep_0 [simp]: "representable p 0"
  unfolding representable_def by (intro exI [of _ 0]) simp

lemma rep_scale: "representable p x \<Longrightarrow> representable p (x * 2 powi j)"
proof -
  assume "representable p x"
  then obtain m e where m: "\<bar>m\<bar> < 2 ^ p" "x = of_int m * 2 powi e" by (auto simp: representable_def)
  then have "x * 2 powi j = of_int m * 2 powi (e + j)" by (simp add: pow2_add)
  with m(1) show ?thesis unfolding representable_def by blast
qed

lemma rep_int_mult:
  assumes "representable p x" "\<bar>c\<bar> \<le> 2 ^ j"
  shows "representable (p + j) (of_int c * x)"
proof -
  from assms(1) obtain m e where m: "\<bar>m\<bar> < 2 ^ p" "x = of_int m * 2 powi e"
    by (auto simp: representable_def)
  show ?thesis
  proof (cases "c = 0")
    case True
    then show ?thesis by simp
  next
    case False
    then have "0 < \<bar>c\<bar>" by simp
    have "\<bar>c * m\<bar> = \<bar>c\<bar> * \<bar>m\<bar>" by (simp add: abs_mult)
    also have "\<dots> < \<bar>c\<bar> * 2 ^ p" using m(1) \<open>0 < \<bar>c\<bar>\<close> by (intro mult_strict_left_mono)
    also have "\<dots> \<le> 2 ^ j * 2 ^ p" using assms(2) by (intro mult_right_mono) simp_all
    finally have "\<bar>c * m\<bar> < 2 ^ (p + j)" by (simp add: power_add mult.commute)
    moreover have "of_int c * x = of_int (c * m) * 2 powi e" by (simp add: m(2))
    ultimately show ?thesis unfolding representable_def by blast
  qed
qed

lemma fl_ge_pow:
  assumes "0 < p" "2 powi k \<le> x"
  shows "2 powi k \<le> fl p x"
proof -
  have pos: "0 < x" using assms(2) pow2_pos [of k] by linarith
  let ?k = "ilog2 x"
  let ?u = "(2::rat) powi (?k - (int p - 1))"
  have kk: "k \<le> ?k" using assms(2) by (rule ilog2_ge)
  have "of_int (2 ^ (p - 1)) = 2 powi ?k / ?u"
    by (simp only: pow2_div_diff pow2_pred [OF assms(1)])
  also have "\<dots> \<le> x / ?u" using ilog2_bounds(1) [OF pos] by (simp add: divide_right_mono)
  finally have "2 ^ (p - 1) \<le> rne (x / ?u)" by (rule rne_ge)
  then have "(of_int (2 ^ (p - 1)) :: rat) \<le> of_int (rne (x / ?u))" by (simp only: of_int_le_iff)
  then have "of_int (2 ^ (p - 1)) * ?u \<le> of_int (rne (x / ?u)) * ?u"
    by (intro mult_right_mono) simp_all
  then have le: "of_int (2 ^ (p - 1)) * ?u \<le> of_int (rne (x / ?u)) * ?u" .
  have "2 powi ?k = 2 powi (int p - 1) * ?u"
    using pow2_add [of "int p - 1" "?k - (int p - 1)"] by simp
  then have eq1: "2 powi ?k = of_int (2 ^ (p - 1)) * ?u" by (simp only: pow2_pred [OF assms(1)])
  have eq2: "fl p x = of_int (rne (x / ?u)) * ?u" using pos by (simp add: fl_ilog2)
  have "2 powi ?k \<le> fl p x" unfolding eq1 eq2 by (rule le)
  with pow2_mono [OF kk] show ?thesis by linarith
qed

lemma fl_pos: "0 < p \<Longrightarrow> 0 < x \<Longrightarrow> 0 < fl p x"
proof -
  assume p: "0 < p" and x: "0 < x"
  from ilog2_bounds(1) [OF x] have "2 powi ilog2 x \<le> fl p x" by (rule fl_ge_pow [OF p])
  with pow2_pos [of "ilog2 x"] show ?thesis by linarith
qed

lemma fl_neg: "0 < p \<Longrightarrow> x < 0 \<Longrightarrow> fl p x < 0"
proof -
  assume p: "0 < p" and x: "x < 0"
  let ?k = "ilog2 \<bar>x\<bar>"
  let ?u = "(2::rat) powi (?k - (int p - 1))"
  have ax: "0 < \<bar>x\<bar>" using x by simp
  have "x / ?u \<le> - (2 powi ?k) / ?u"
    using ilog2_bounds(1) [OF ax] x by (intro divide_right_mono) simp_all
  also have "\<dots> = - (2 powi ?k / ?u)" by simp
  also have "\<dots> = of_int (- (2 ^ (p - 1)))"
    by (simp only: pow2_div_diff pow2_pred [OF p] of_int_minus)
  finally have "rne (x / ?u) \<le> - (2 ^ (p - 1))" by (rule rne_le)
  moreover have "(0::int) < 2 ^ (p - 1)" by simp
  ultimately have "rne (x / ?u) < 0" by linarith
  then have "of_int (rne (x / ?u)) * ?u < 0" by (simp add: mult_neg_pos)
  then show ?thesis using x by (simp add: fl_ilog2)
qed

lemma fl_eq_0_iff: "0 < p \<Longrightarrow> fl p x = 0 \<longleftrightarrow> x = 0"
  using fl_pos [of p x] fl_neg [of p x] by (cases "x = 0"; cases "0 < x") auto

lemma fl_rep:
  assumes "0 < p"
  shows "representable p (fl p x)"
proof (cases "x = 0")
  case True
  then show ?thesis by simp
next
  case False
  let ?k = "ilog2 \<bar>x\<bar>"
  let ?e = "?k - (int p - 1)"
  let ?u = "(2::rat) powi ?e"
  let ?M = "rne (x / ?u)"
  have ax: "0 < \<bar>x\<bar>" using False by simp
  have fl: "fl p x = of_int ?M * ?u" using False by (simp add: fl_ilog2)
  have pp: "(2::rat) powi (?k + 1) / ?u = of_int (2 ^ p)"
  proof -
    have "(2::rat) powi (?k + 1) / ?u = 2 powi (?k + 1 - ?e)" by (simp only: pow2_diff)
    also have "?k + 1 - ?e = int p" by simp
    finally show ?thesis by (simp only: pow2_nat_eq)
  qed
  have "\<bar>x\<bar> / ?u \<le> of_int (2 ^ p)"
    using ilog2_bounds(2) [OF ax] unfolding pp [symmetric] by (intro divide_right_mono) simp_all
  then have "\<bar>x / ?u\<bar> \<le> of_int (2 ^ p)" by (simp only: abs_divide abs_of_pos [OF pow2_pos])
  then have "x / ?u \<le> of_int (2 ^ p)" "of_int (- (2 ^ p)) \<le> x / ?u"
    by (simp_all only: of_int_minus abs_le_iff, linarith)
  then have "?M \<le> 2 ^ p" "- (2 ^ p) \<le> ?M" by (simp_all only: rne_le rne_ge)
  then consider "\<bar>?M\<bar> < 2 ^ p" | "?M = 2 ^ p" | "?M = - (2 ^ p)" by fastforce
  then show ?thesis
  proof cases
    case 1
    then show ?thesis unfolding representable_def fl by blast
  next
    case 2
    have "fl p x = of_int 1 * 2 powi (int p + ?e)"
      unfolding fl 2 pow2_add by (simp only: pow2_nat_eq of_int_1 mult_1)
    moreover have "\<bar>1::int\<bar> < 2 ^ p" using assms by simp
    ultimately show ?thesis unfolding representable_def by blast
  next
    case 3
    have "fl p x = of_int (- 1) * 2 powi (int p + ?e)"
      unfolding fl 3 pow2_add by (simp only: pow2_nat_eq of_int_minus of_int_1 mult_minus_left mult_1)
    moreover have "\<bar>- 1::int\<bar> < 2 ^ p" using assms by simp
    ultimately show ?thesis unfolding representable_def by blast
  qed
qed

lemma rep_normal_form:
  assumes "representable p x" "0 < x" "k \<le> ilog2 x"
  shows "\<exists>M::int. x = of_int M * 2 powi (k - (int p - 1))"
proof -
  from assms(1) obtain m e where m: "\<bar>m\<bar> < 2 ^ p" "x = of_int m * 2 powi e"
    by (auto simp: representable_def)
  have "x \<le> \<bar>x\<bar>" by simp
  also have "\<bar>x\<bar> = of_int \<bar>m\<bar> * 2 powi e" by (simp add: m(2) abs_mult)
  also have "\<dots> < of_int (2 ^ p) * 2 powi e"
    using m(1) by (intro mult_strict_right_mono) (simp_all only: of_int_less_iff pow2_pos)
  also have "\<dots> = 2 powi (int p + e)" by (simp add: pow2_add)
  finally have "x < 2 powi (int p + e)" .
  with ilog2_bounds(1) [OF assms(2)] have "(2::rat) powi ilog2 x < 2 powi (int p + e)" by linarith
  then have "ilog2 x < int p + e" by (rule pow2_less_imp)
  with assms(3) have j: "0 \<le> e - (k - (int p - 1))" by simp
  have "x = of_int m * (2 powi (e - (k - (int p - 1))) * 2 powi (k - (int p - 1)))"
    by (simp only: m(2) pow2_split [symmetric])
  also have "\<dots> = of_int (m * 2 ^ nat (e - (k - (int p - 1)))) * 2 powi (k - (int p - 1))"
    by (simp add: pow2_nat [OF j])
  finally show ?thesis by blast
qed

lemma rep_gap:
  assumes "representable p a" "representable p b" "0 < b" "b < a"
  shows "b + 2 powi (ilog2 b - (int p - 1)) \<le> a"
proof -
  define u where "u = (2::rat) powi (ilog2 b - (int p - 1))"
  have u: "0 < u" by (simp add: u_def)
  have "2 powi ilog2 b \<le> a" using ilog2_bounds(1) [OF assms(3)] assms(4) by linarith
  then have ka: "ilog2 b \<le> ilog2 a" by (rule ilog2_ge)
  have apos: "0 < a" using assms(3,4) by linarith
  from rep_normal_form [OF assms(1) apos ka] obtain A :: int where A: "a = of_int A * u"
    unfolding u_def by blast
  from rep_normal_form [OF assms(2,3) order_refl] obtain B :: int where B: "b = of_int B * u"
    unfolding u_def by blast
  from assms(4) have "of_int B * u < of_int A * u" by (simp only: A B)
  with u have "(of_int B :: rat) < of_int A" by (simp add: mult_less_cancel_right)
  then have "B + 1 \<le> A" by simp
  then have "(of_int (B + 1) :: rat) \<le> of_int A" by (simp only: of_int_le_iff)
  with u have "of_int (B + 1) * u \<le> of_int A * u" by (intro mult_right_mono) simp_all
  then have "b + u \<le> a" by (simp add: A B algebra_simps)
  then show ?thesis by (simp only: u_def)
qed

lemma fl64_int: "\<bar>i\<bar> < 2 ^ 53 \<Longrightarrow> fl64 (of_int i) = of_int i"
  using fl_exact [of i 53 0] by (simp add: fl64_def)

lemma fl64_nat: "n < 2 ^ 53 \<Longrightarrow> fl64 (of_nat n) = of_nat n"
  using fl64_int [of "int n"] by simp

lemma fl64_0 [simp]: "fl64 0 = 0"
  by (simp add: fl64_def)

lemma fl64_eq_0_iff [simp]: "fl64 x = 0 \<longleftrightarrow> x = 0"
  by (simp add: fl64_def fl_eq_0_iff)

lemma fl64_small_multiple:
  assumes "representable 24 g" "\<bar>c\<bar> \<le> 8"
  shows "fl64 (of_int c * g) = of_int c * g"
proof -
  have "\<bar>c\<bar> \<le> 2 ^ 3" using assms(2) by simp
  with assms(1) have "representable (24 + 3) (of_int c * g)" by (rule rep_int_mult)
  then have "representable 53 (of_int c * g)" by (rule rep_mono) simp
  then show ?thesis unfolding fl64_def by (rule fl_rep_exact)
qed

lemma quarter_exact:
  assumes "representable 53 n"
  shows "js_mul n (25 / 100) = n / 4"
proof -
  have "representable 53 (n * 2 powi (- 2))" using assms by (rule rep_scale)
  then have "fl 53 (n * 2 powi (- 2)) = n * 2 powi (- 2)" by (rule fl_rep_exact)
  then show ?thesis by (simp add: js_mul_def fl64_def power_int_minus)
qed

lemma ratio_above_quarter:
  assumes "representable 53 a" "representable 53 n" "0 < n" "n / 4 < a"
  shows "1 / 4 + 1 / 2 ^ 55 < a / n"
proof -
  let ?b = "n / 4"
  have b: "representable 53 ?b"
    using rep_scale [OF assms(2), of "- 2"] by (simp add: power_int_minus)
  have bpos: "0 < ?b" using assms(3) by simp
  have "?b < 2 powi (ilog2 ?b + 1)" using bpos by (rule ilog2_bounds(2))
  also have "\<dots> = 2 powi (ilog2 ?b - (int 53 - 1)) * 2 ^ 53"
    using pow2_add [of "ilog2 ?b - 52" 53] by (simp add: add.commute)
  finally have "?b / 2 ^ 53 < 2 powi (ilog2 ?b - (int 53 - 1))"
    by (simp add: pos_divide_less_eq)
  moreover have "?b + 2 powi (ilog2 ?b - (int 53 - 1)) \<le> a"
    using assms(1) b bpos assms(4) by (rule rep_gap)
  ultimately have "?b + ?b / 2 ^ 53 < a" by linarith
  then have "n * (1 / 4 + 1 / 2 ^ 55) < a" by (simp add: algebra_simps)
  then show ?thesis using assms(3) by (simp add: pos_less_divide_eq mult.commute)
qed

lemma fl64_above_quarter:
  assumes "1 / 4 + 1 / 2 ^ 55 < x"
  shows "1 / 4 + 1 / 2 ^ 54 \<le> fl64 x"
proof (cases "x < 1 / 2")
  case True
  have "2 powi (- 2) \<le> \<bar>x\<bar>" "\<bar>x\<bar> < 2 powi (- 2 + 1)"
    using assms True by (simp_all add: power_int_minus)
  then have fl: "fl 53 x = of_int (rne (x / 2 powi (- 2 - (int 53 - 1)))) * 2 powi (- 2 - (int 53 - 1))"
    by (rule fl_binade)
  have "of_int (2 ^ 52) + 1 / 2 < x / 2 powi (- 2 - (int 53 - 1))"
    using assms by (simp add: power_int_minus field_simps)
  then have "2 ^ 52 + 1 \<le> rne (x / 2 powi (- 2 - (int 53 - 1)))" by (rule rne_gt_half)
  then have "(of_int (2 ^ 52 + 1) :: rat) \<le> of_int (rne (x / 2 powi (- 2 - (int 53 - 1))))"
    by (simp only: of_int_le_iff)
  then have "of_int (2 ^ 52 + 1) * 2 powi (- 2 - (int 53 - 1)) \<le> fl 53 x"
    unfolding fl by (intro mult_right_mono) simp_all
  then show ?thesis by (simp add: fl64_def power_int_minus field_simps)
next
  case False
  then have "2 powi (- 1) \<le> x" by (simp add: power_int_minus)
  then have "2 powi (- 1) \<le> fl 53 x" by (intro fl_ge_pow) simp_all
  then show ?thesis by (simp add: fl64_def power_int_minus)
qed

lemma fl64_times_100_above_25:
  assumes "1 / 4 + 1 / 2 ^ 54 \<le> q"
  shows "25 < fl64 (q * 100)"
proof (cases "q * 100 < 32")
  case True
  have "2 powi 4 \<le> \<bar>q * 100\<bar>" "\<bar>q * 100\<bar> < 2 powi (4 + 1)"
    using assms True by simp_all
  then have fl: "fl 53 (q * 100)
      = of_int (rne (q * 100 / 2 powi (4 - (int 53 - 1)))) * 2 powi (4 - (int 53 - 1))"
    by (rule fl_binade)
  have "of_int (25 * 2 ^ 48 + 1) \<le> q * 100 / 2 powi (4 - (int 53 - 1))"
    using assms by (simp add: power_int_minus field_simps)
  then have "25 * 2 ^ 48 + 1 \<le> rne (q * 100 / 2 powi (4 - (int 53 - 1)))" by (rule rne_ge)
  then have "(of_int (25 * 2 ^ 48 + 1) :: rat) \<le> of_int (rne (q * 100 / 2 powi (4 - (int 53 - 1))))"
    by (simp only: of_int_le_iff)
  then have "of_int (25 * 2 ^ 48 + 1) * 2 powi (4 - (int 53 - 1)) \<le> fl 53 (q * 100)"
    unfolding fl by (intro mult_right_mono) simp_all
  then show ?thesis by (simp add: fl64_def power_int_minus field_simps)
next
  case False
  then have "2 powi 5 \<le> q * 100" by simp
  then have "2 powi 5 \<le> fl 53 (q * 100)" by (intro fl_ge_pow) simp_all
  then show ?thesis by (simp add: fl64_def)
qed

lemma fill_accepted:
  assumes "representable 53 a" "representable 53 n" "0 < n" "js_mul n (25 / 100) < a"
  shows "25 < js_mul (fl64 (a / n)) 100"
proof -
  have "n / 4 < a" using assms(4) by (simp only: quarter_exact [OF assms(2)])
  with assms(1-3) have "1 / 4 + 1 / 2 ^ 55 < a / n" by (rule ratio_above_quarter)
  then have "1 / 4 + 1 / 2 ^ 54 \<le> fl64 (a / n)" by (rule fl64_above_quarter)
  then show ?thesis unfolding js_mul_def by (rule fl64_times_100_above_25)
qed

section \<open>Grayscale and binarisation\<close>

lemma length_4_cases:
  assumes "length (ds :: 'a list) = 4 * Suc n"
  obtains r g b a rest where "ds = r # g # b # a # rest" "length rest = 4 * n"
proof -
  from assms obtain r d1 where 1: "ds = r # d1" by (cases ds) auto
  with assms obtain g d2 where 2: "d1 = g # d2" by (cases d1) auto
  with 1 assms obtain b d3 where 3: "d2 = b # d3" by (cases d2) auto
  with 1 2 assms obtain a rest where 4: "d3 = a # rest" by (cases d3) auto
  from 1 2 3 4 assms have "ds = r # g # b # a # rest" "length rest = 4 * n" by auto
  then show thesis by (rule that)
qed

lemma grayscale_length: "length (grayscale ds k gray) = length gray"
  by (induction ds k gray rule: grayscale.induct) auto

lemma grayscale_nth:
  "length ds = 4 * n \<Longrightarrow> j < length gray \<Longrightarrow>
   grayscale ds k gray ! j =
     (if k \<le> j \<and> j < k + n
      then fl32 (luma (ds ! (4 * (j - k))) (ds ! (4 * (j - k) + 1)) (ds ! (4 * (j - k) + 2)))
      else gray ! j)"
proof (induction n arbitrary: ds k gray)
  case 0
  then show ?case by auto
next
  case (Suc n)
  from Suc.prems(1) obtain r g b a rest
    where ds: "ds = r # g # b # a # rest" and len: "length rest = 4 * n"
    by (rule length_4_cases)
  have step: "grayscale ds k gray ! j =
      (if Suc k \<le> j \<and> j < Suc k + n
       then fl32 (luma (rest ! (4 * (j - Suc k))) (rest ! (4 * (j - Suc k) + 1))
                       (rest ! (4 * (j - Suc k) + 2)))
       else gray[k := fl32 (luma r g b)] ! j)"
    using Suc.IH [OF len, where gray = "gray[k := fl32 (luma r g b)]" and k = "Suc k"] Suc.prems(2)
    by (simp add: ds)
  show ?case
  proof (cases "Suc k \<le> j \<and> j < Suc k + n")
    case True
    then obtain m where m: "j - k = Suc m" "j - Suc k = m" by (cases "j - k") auto
    have sh: "4 * Suc m = Suc (Suc (Suc (Suc (4 * m))))" by simp
    from True show ?thesis
      unfolding step by (simp add: m ds sh del: mult_Suc_right)
  next
    case False
    then show ?thesis
      unfolding step using Suc.prems(2) by (auto simp: ds nth_list_update)
  qed
qed

lemma binarize_length: "length (binarize ds k bin) = length bin"
  by (induction ds k bin rule: binarize.induct) auto


lemma index_in_frame:
  assumes "x < w" "y < (h::nat)"
  shows "y * w + x < w * h"
proof -
  have "y * w + x < Suc y * w" using assms(1) by simp
  also have "\<dots> \<le> h * w" using assms(2) by (intro mult_le_mono1) simp
  finally show ?thesis by (simp add: mult.commute)
qed

lemma gray_gray_at:
  assumes "wf_ImageData img" "x < width img" "y < height img"
  shows "grayscale (data img) 0 (replicate (width img * height img) 0) ! (y * width img + x)
         = gray_at img x y"
proof -
  have "y * width img + x < width img * height img"
  proof -
    have "y * width img + x < y * width img + width img" using assms(2) by simp
    also have "\<dots> = Suc y * width img" by simp
    also have "\<dots> \<le> height img * width img" using assms(3) by (intro mult_le_mono1) simp
    finally show ?thesis by (simp add: mult.commute)
  qed
  moreover have "length (data img) = 4 * (width img * height img)"
    using assms(1) by (simp add: wf_ImageData_def)
  ultimately show ?thesis
    by (simp add: grayscale_nth gray_at_def luma_at_def Let_def)
qed


section \<open>The Laplacian iteration as a fold over the interior pixels\<close>

lemma blur_row_foldl:
  "blur_row gray w y x v =
     foldl (\<lambda>s x'. js_add s (js_mul (laplacian gray w (y * w + x')) (laplacian gray w (y * w + x'))))
       v [x..<w - 1]"
proof (induction gray w y x v rule: blur_row.induct)
  case (1 gray w y x variance)
  show ?case
  proof (cases "x < w - 1")
    case True
    let ?l = "laplacian gray w (y * w + x)"
    from True have "blur_row gray w y x variance =
        blur_row gray w y (x + 1) (js_add variance (js_mul ?l ?l))"
      by (subst blur_row.simps) (simp add: Let_def)
    also have "\<dots> = foldl (\<lambda>s x'. js_add s (js_mul (laplacian gray w (y * w + x'))
        (laplacian gray w (y * w + x')))) (js_add variance (js_mul ?l ?l)) [x + 1..<w - 1]"
      using "1.IH" [OF True refl refl] by simp
    also have "\<dots> = foldl (\<lambda>s x'. js_add s (js_mul (laplacian gray w (y * w + x'))
        (laplacian gray w (y * w + x')))) variance [x..<w - 1]"
      using True by (simp add: upt_conv_Cons)
    finally show ?thesis .
  next
    case False
    then show ?thesis by (subst blur_row.simps) simp
  qed
qed

lemma blur_rows_foldl:
  "blur_rows gray w h y v =
     foldl (\<lambda>s (x', y'). js_add s (js_mul (laplacian gray w (y' * w + x'))
                                           (laplacian gray w (y' * w + x'))))
       v (concat (map (\<lambda>y'. map (\<lambda>x'. (x', y')) [1..<w - 1]) [y..<h - 1]))"
proof (induction gray w h y v rule: blur_rows.induct)
  case (1 gray w h y variance)
  show ?case
  proof (cases "y < h - 1")
    case True
    then have "blur_rows gray w h y variance =
        blur_rows gray w h (y + 1) (blur_row gray w y 1 variance)"
      by (subst blur_rows.simps) simp
    also have "\<dots> = foldl (\<lambda>s (x', y'). js_add s (js_mul (laplacian gray w (y' * w + x'))
          (laplacian gray w (y' * w + x'))))
        (blur_row gray w y 1 variance)
        (concat (map (\<lambda>y'. map (\<lambda>x'. (x', y')) [1..<w - 1]) [y + 1..<h - 1]))"
      using "1.IH" [OF True] by simp
    also have "\<dots> = foldl (\<lambda>s (x', y'). js_add s (js_mul (laplacian gray w (y' * w + x'))
          (laplacian gray w (y' * w + x'))))
        variance (concat (map (\<lambda>y'. map (\<lambda>x'. (x', y')) [1..<w - 1]) [y..<h - 1]))"
      using True by (simp add: upt_conv_Cons blur_row_foldl foldl_map)
    finally show ?thesis .
  next
    case False
    then show ?thesis by (subst blur_rows.simps) simp
  qed
qed

lemma laplacian_kernel_response:
  assumes wf: "wf_ImageData img"
    and x: "1 \<le> x" "x < width img - 1" and y: "1 \<le> y" "y < height img - 1"
  shows "laplacian (grayscale (data img) 0 (replicate (width img * height img) 0))
           (width img) (y * width img + x) = kernel_response img x y"
proof -
  let ?w = "width img"
  let ?g = "grayscale (data img) 0 (replicate (?w * height img) 0)"
  obtain x0 where x0: "x = Suc x0" using x(1) by (cases x) auto
  obtain y0 where y0: "y = Suc y0" using y(1) by (cases y) auto
  have xs: "x0 < ?w" "Suc x0 < ?w" "Suc (Suc x0) < ?w" using x(2) x0 by auto
  have ys: "y0 < height img" "Suc y0 < height img" "Suc (Suc y0) < height img"
    using y(2) y0 by auto
  have g1: "?g ! (y * ?w + x - ?w - 1) = gray_at img (x - 1) (y - 1)"
    using gray_gray_at [OF wf xs(1) ys(1)] by (simp add: x0 y0)
  have g2: "?g ! (y * ?w + x - ?w) = gray_at img x (y - 1)"
    using gray_gray_at [OF wf xs(2) ys(1)] by (simp add: x0 y0)
  have g3: "?g ! (y * ?w + x - ?w + 1) = gray_at img (x + 1) (y - 1)"
    using gray_gray_at [OF wf xs(3) ys(1)] by (simp add: x0 y0)
  have g4: "?g ! (y * ?w + x - 1) = gray_at img (x - 1) y"
    using gray_gray_at [OF wf xs(1) ys(2)] by (simp add: x0 y0)
  have g5: "?g ! (y * ?w + x) = gray_at img x y"
    using gray_gray_at [OF wf xs(2) ys(2)] by (simp add: x0 y0)
  have g6: "?g ! (y * ?w + x + 1) = gray_at img (x + 1) y"
    using gray_gray_at [OF wf xs(3) ys(2)] by (simp add: x0 y0)
  have g7: "?g ! (y * ?w + x + ?w - 1) = gray_at img (x - 1) (y + 1)"
    using gray_gray_at [OF wf xs(1) ys(3)] by (simp add: x0 y0 add_ac)
  have g8: "?g ! (y * ?w + x + ?w) = gray_at img x (y + 1)"
    using gray_gray_at [OF wf xs(2) ys(3)] by (simp add: x0 y0 add_ac)
  have g9: "?g ! (y * ?w + x + ?w + 1) = gray_at img (x + 1) (y + 1)"
    using gray_gray_at [OF wf xs(3) ys(3)] by (simp add: x0 y0 add_ac)
  show ?thesis
    unfolding laplacian_def kernel_response_def g1 g2 g3 g4 g5 g6 g7 g8 g9 ..
qed

lemma interior_bounds:
  "(x, y) \<in> set (interior img) \<Longrightarrow>
     1 \<le> x \<and> x < width img - 1 \<and> 1 \<le> y \<and> y < height img - 1"
  by (auto simp: interior_def)

lemma variance_foldl:
  assumes wf: "wf_ImageData img"
  shows "blur_rows (grayscale (data img) 0 (replicate (width img * height img) 0))
           (width img) (height img) 1 0
         = foldl (\<lambda>s (x, y). js_add s (js_mul (kernel_response img x y) (kernel_response img x y)))
             0 (interior img)"
  unfolding blur_rows_foldl interior_def [symmetric]
  by (rule foldl_cong [OF refl refl])
     (auto dest!: interior_bounds simp: laplacian_kernel_response [OF wf])

lemma divisor_exact:
  assumes "3 \<le> w" "3 \<le> h" "w * h < 2 ^ 53"
  shows "js_mul (js_sub (of_nat w) 2) (js_sub (of_nat h) 2) = of_nat ((w - 2) * (h - 2))"
proof -
  have le: "(w - 2) * (h - 2) \<le> w * h" by (intro mult_le_mono) simp_all
  have "w - 2 \<le> (w - 2) * (h - 2)" "h - 2 \<le> (w - 2) * (h - 2)" using assms(1,2) by simp_all
  with le assms(3) have b: "w - 2 < 2 ^ 53" "h - 2 < 2 ^ 53" "(w - 2) * (h - 2) < 2 ^ 53"
    by linarith+
  have "js_sub (of_nat w) 2 = fl64 (of_nat (w - 2))"
    using assms(1) by (simp add: js_sub_def of_nat_diff)
  then have w: "js_sub (of_nat w) 2 = of_nat (w - 2)" by (simp only: fl64_nat [OF b(1)])
  have "js_sub (of_nat h) 2 = fl64 (of_nat (h - 2))"
    using assms(2) by (simp add: js_sub_def of_nat_diff)
  then have h: "js_sub (of_nat h) 2 = of_nat (h - 2)" by (simp only: fl64_nat [OF b(2)])
  have "js_mul (of_nat (w - 2)) (of_nat (h - 2)) = fl64 (of_nat ((w - 2) * (h - 2)))"
    by (simp add: js_mul_def)
  then show ?thesis by (simp only: w h fl64_nat [OF b(3)])
qed

lemma frame_size_bound:
  assumes "wf_ImageData img" "length (data img) < 2 ^ 53"
  shows "width img * height img < 2 ^ 53"
proof -
  have "width img * height img \<le> 4 * width img * height img" by simp
  also have "\<dots> = length (data img)" using assms(1) by (simp add: wf_ImageData_def)
  finally show ?thesis using assms(2) by linarith
qed

lemma calculateBlurScore_mean:
  assumes wf: "wf_ImageData img" and "3 \<le> width img" "3 \<le> height img"
    and "length (data img) < 2 ^ 53"
  shows "calculateBlurScore img = Fin (mean_squared_response img)"
proof -
  have d: "js_mul (js_sub (of_nat (width img)) 2) (js_sub (of_nat (height img)) 2)
      = of_nat ((width img - 2) * (height img - 2))"
    using assms(2,3) frame_size_bound [OF wf assms(4)] by (rule divisor_exact)
  have "(width img - 2) * (height img - 2) \<noteq> 0" using assms(2,3) by simp
  then show ?thesis
    unfolding calculateBlurScore_def Let_def variance_foldl [OF wf] d mean_squared_response_def
    by (simp add: js_div_def)
qed

lemma blur_row_skip: "w < 3 \<Longrightarrow> blur_row gray w y 1 v = v"
  by (subst blur_row.simps) auto

lemma blur_rows_skip: "w < 3 \<or> h < 3 \<Longrightarrow> 1 \<le> y \<Longrightarrow> blur_rows gray w h y v = v"
proof (induction gray w h y v rule: blur_rows.induct)
  case (1 gray w h y variance)
  show ?case
  proof (cases "y < h - 1")
    case True
    with "1.prems" have w: "w < 3" by auto
    from True have "blur_rows gray w h y variance
        = blur_rows gray w h (y + 1) (blur_row gray w y 1 variance)"
      by (subst blur_rows.simps) simp
    also have "\<dots> = blur_row gray w y 1 variance"
      using "1.IH" [OF True] "1.prems" by simp
    also have "\<dots> = variance" using w by (rule blur_row_skip)
    finally show ?thesis .
  next
    case False
    then show ?thesis by (subst blur_rows.simps) simp
  qed
qed

lemma divisor_zero_iff:
  "js_mul (js_sub (of_nat w) 2) (js_sub (of_nat h) 2) = 0 \<longleftrightarrow> w = 2 \<or> h = 2"
proof -
  have "(of_nat w :: rat) - 2 = 0 \<longleftrightarrow> w = 2" "(of_nat h :: rat) - 2 = 0 \<longleftrightarrow> h = 2"
    by (metis eq_iff_diff_eq_0 of_nat_eq_iff of_nat_numeral)+
  then show ?thesis by (simp add: js_mul_def js_sub_def)
qed

lemma small_frame_blur:
  assumes "0 < width img" "0 < height img" "width img < 3 \<or> height img < 3"
  shows "calculateBlurScore img = (if width img = 2 \<or> height img = 2 then NaN else Fin 0)"
  using assms(3)
  by (simp add: calculateBlurScore_def Let_def blur_rows_skip js_div_def divisor_zero_iff)

lemma kernel_uniform:
  assumes g: "representable 24 g"
  shows "kernel g g g g g g g g g = 0"
proof -
  have s1: "js_sub (- g) g = - 2 * g"
    using fl64_small_multiple [OF g, of "- 2"] by (simp add: js_sub_def)
  have s2: "js_sub (- 2 * g) g = - 3 * g"
    using fl64_small_multiple [OF g, of "- 3"] by (simp add: js_sub_def algebra_simps)
  have s3: "js_sub (- 3 * g) g = - 4 * g"
    using fl64_small_multiple [OF g, of "- 4"] by (simp add: js_sub_def algebra_simps)
  have m8: "js_mul 8 g = 8 * g"
    using fl64_small_multiple [OF g, of 8] by (simp add: js_mul_def)
  have s4: "js_add (- 4 * g) (8 * g) = 4 * g"
    using fl64_small_multiple [OF g, of 4] by (simp add: js_add_def algebra_simps)
  have s5: "js_sub (4 * g) g = 3 * g"
    using fl64_small_multiple [OF g, of 3] by (simp add: js_sub_def algebra_simps)
  have s6: "js_sub (3 * g) g = 2 * g"
    using fl64_small_multiple [OF g, of 2] by (simp add: js_sub_def algebra_simps)
  have s7: "js_sub (2 * g) g = g"
    using fl64_small_multiple [OF g, of 1] by (simp add: js_sub_def algebra_simps)
  have s8: "js_sub g g = 0" by (simp add: js_sub_def)
  show ?thesis unfolding kernel_def s1 s2 s3 m8 s4 s5 s6 s7 s8 ..
qed

lemma uniform_luma:
  assumes "uniformly_coloured img" "x < width img" "y < height img"
  shows "luma_at img x y = luma (data img ! 0) (data img ! 1) (data img ! 2)"
proof -
  have "y * width img + x < width img * height img"
    using assms(2,3) by (rule index_in_frame)
  then have "y * width img + x \<in> set [0..<width img * height img]" by simp
  with assms(1) have "data img ! (4 * (y * width img + x)) = data img ! 0 \<and>
      data img ! (4 * (y * width img + x) + 1) = data img ! 1 \<and>
      data img ! (4 * (y * width img + x) + 2) = data img ! 2"
    unfolding uniformly_coloured_def list_all_iff by (rule bspec)
  then show ?thesis by (simp add: luma_at_def Let_def)
qed

lemma uniform_response:
  assumes "uniformly_coloured img" "1 \<le> x" "x < width img - 1" "1 \<le> y" "y < height img - 1"
  shows "kernel_response img x y = 0"
proof -
  let ?g = "fl32 (luma (data img ! 0) (data img ! 1) (data img ! 2))"
  have g: "representable 24 ?g" unfolding fl32_def by (rule fl_rep) simp
  have "x - 1 < width img" "x < width img" "x + 1 < width img"
    "y - 1 < height img" "y < height img" "y + 1 < height img"
    using assms(2-5) by auto
  then have "kernel_response img x y = kernel ?g ?g ?g ?g ?g ?g ?g ?g ?g"
    unfolding kernel_response_def gray_at_def by (simp add: uniform_luma [OF assms(1)])
  then show ?thesis by (simp only: kernel_uniform [OF g])
qed

lemma foldl_fixed:
  "(\<And>p. p \<in> set ps \<Longrightarrow> f s p = s) \<Longrightarrow> foldl f s ps = s"
  by (induction ps) simp_all

lemma uniform_variance:
  assumes "uniformly_coloured img"
  shows "foldl (\<lambda>s (x, y). js_add s (js_mul (kernel_response img x y) (kernel_response img x y)))
           0 (interior img) = 0"
  by (rule foldl_fixed)
     (auto dest!: interior_bounds simp: uniform_response [OF assms] js_add_def js_mul_def)

lemma uniform_blur:
  assumes "wf_ImageData img" "3 \<le> width img" "3 \<le> height img" "uniformly_coloured img"
  shows "calculateBlurScore img = Fin 0"
proof -
  have "js_mul (js_sub (of_nat (width img)) 2) (js_sub (of_nat (height img)) 2) \<noteq> 0"
    using assms(2,3) by (simp add: divisor_zero_iff)
  then show ?thesis
    unfolding calculateBlurScore_def Let_def variance_foldl [OF assms(1)]
      uniform_variance [OF assms(4)]
    by (simp add: js_div_def)
qed

section \<open>Scanning as a fold over the foreground samples\<close>

















lemma detectDocumentEdges_gap:
  assumes "0 < width img" "0 < height img"
  shows "snd (detectDocumentEdges img) = Fin 0
         \<or> (\<exists>r. snd (detectDocumentEdges img) = Fin r \<and> 25 < r)"
proof -
  define n where "n = js_mul (of_nat (width img)) (of_nat (height img))"
  define s where "s = scan_rows (binarize (data img) 0 (replicate (width img * height img) 0))
      (width img) (height img) 0
      \<lparr>topLeft = \<lparr>px = int (width img), py = int (height img)\<rparr>,
       bottomRight = \<lparr>px = 0, py = 0\<rparr>, edgeCount = 0\<rparr>"
  define a where "a = js_mul (js_sub (of_int (px (bottomRight s))) (of_int (px (topLeft s))))
      (js_sub (of_int (py (bottomRight s))) (of_int (py (topLeft s))))"
  define acc where "acc \<longleftrightarrow> js_mul n (25 / 100) < a \<and> 100 < edgeCount s"
  have "0 < rat_of_nat (width img) * of_nat (height img)" using assms by simp
  then have n: "0 < n" unfolding n_def js_mul_def fl64_def by (intro fl_pos) simp_all
  have rn: "representable 53 n" unfolding n_def js_mul_def fl64_def by (rule fl_rep) simp
  have ra: "representable 53 a" unfolding a_def js_mul_def fl64_def by (rule fl_rep) simp
  have fill: "snd (detectDocumentEdges img) = js_times (js_div (if acc then a else 0) n) 100"
    unfolding detectDocumentEdges_def Let_def snd_conv
    unfolding s_def [symmetric] a_def [symmetric] n_def [symmetric] acc_def [symmetric] ..
  show ?thesis
  proof (cases acc)
    case True
    then have "25 < js_mul (fl64 (a / n)) 100"
      using fill_accepted [OF ra rn n] by (simp add: acc_def)
    with True n show ?thesis by (simp add: fill js_div_def)
  next
    case False
    with n show ?thesis by (simp add: fill js_div_def js_mul_def)
  qed
qed

section \<open>Facts about checkQuality and the example frames\<close>

lemma checkQuality_fields:
  assumes "getImageData v = Inr img"
  shows "\<exists>q. checkQuality v = Inr q \<and> blurScore q = calculateBlurScore img \<and>
             isSharp q = js_gt (calculateBlurScore img) 100 \<and>
             documentCorners q = fst (detectDocumentEdges img) \<and>
             fillPercentage q = snd (detectDocumentEdges img)"
  using assms by (simp add: checkQuality_def Let_def split_beta)

lemma checkQuality_returns:
  "0 < videoWidth v \<Longrightarrow> 0 < videoHeight v \<Longrightarrow> \<exists>q. checkQuality v = Inr q"
  by (simp add: checkQuality_def getImageData_def Let_def split_beta)

lemma msg_closer_distinct:
  "msg_position \<noteq> msg_closer" "msg_blurry \<noteq> msg_closer" "msg_ready \<noteq> msg_closer"
  by (simp_all add: msg_closer_def msg_position_def msg_blurry_def msg_ready_def)

lemma js_gt_not_lt: "js_gt n c \<Longrightarrow> \<not> js_lt n c"
  by (cases n) auto

lemma checkQuality_frame2:
  "checkQuality frame2 =
     Inr \<lparr>isSharp = False, blurScore = NaN, hasDocumentEdges = False, documentCorners = None,
          qualityMessage = msg_position, fillPercentage = Fin 0\<rparr>"
  by code_simp

lemma checkQuality_faint3:
  "checkQuality faint3 =
     Inr \<lparr>isSharp = True, blurScore = Fin (1759218688327681 / 17592186044416),
          hasDocumentEdges = False, documentCorners = None,
          qualityMessage = msg_position, fillPercentage = Fin 0\<rparr>"
  by code_simp

lemma faint3_image:
  "getImageData faint3 = Inr \<lparr>data = raster faint3, width = 3, height = 3\<rparr>"
  by (simp add: getImageData_def faint3_def)

lemma faint3_wf: "wf_ImageData \<lparr>data = raster faint3, width = 3, height = 3\<rparr>"
  by code_simp

lemma faint3_exact:
  "exact_mean_squared_response \<lparr>data = raster faint3, width = 3, height = 3\<rparr> = 100"
  by code_simp

lemma grey3_image:
  "getImageData grey3 =
     Inr \<lparr>data = concat (replicate 9 [200, 200, 200, 255]), width = 3, height = 3\<rparr>"
  by (simp add: getImageData_def grey3_def)

lemma grey3_uniform:
  "uniformly_coloured \<lparr>data = concat (replicate 9 [200, 200, 200, 255]), width = 3, height = 3\<rparr>"
  by code_simp

lemma grey3_wf:
  "wf_ImageData \<lparr>data = concat (replicate 9 [200, 200, 200, 255]), width = 3, height = 3\<rparr>"
  by code_simp












section \<open>Facts about the component\<close>


lemma tick_keeps:
  "capturedImage (tick camera s) = capturedImage s"
  "isScanning (tick camera s) = isScanning s"
  "interval (tick camera s) = interval s"
  by (simp_all add: tick_def split: option.splits sum.splits)

lemma run_ticks_keeps:
  "capturedImage (run_ticks frames s) = capturedImage s \<and>
   isScanning (run_ticks frames s) = isScanning s \<and>
   interval (run_ticks frames s) = interval s"
  unfolding run_ticks_def by (induction frames arbitrary: s) (simp_all add: tick_keeps)

lemma tick_publishes:
  assumes "interval s" "no_image s" "checkQuality v = Inr q"
  shows "scanQuality (tick (Some v) s) = Some q"
  using assms by (simp add: tick_def webcamRef_def)

section \<open>The claims\<close>

text \<open>
  Claim C1. For every ScanQuality \<open>q\<close> that an evaluation cycle has published, the Capture
  button is enabled exactly when both \<open>isSharp q\<close> and \<open>hasDocumentEdges q\<close> hold; when
  exactly one of the two holds, capture is not permitted.
\<close>

theorem capture_gating:
  "(\<not> capture_disabled (Some q)) = (isSharp q \<and> hasDocumentEdges q)"
  by (simp add: capture_disabled_def canCapture_def js_and_def optional_chain_def)

theorem capture_gating_witness:
  "capture_disabled (Some \<lparr>isSharp = True, blurScore = Fin 150, hasDocumentEdges = False,
       documentCorners = None, qualityMessage = msg_position, fillPercentage = Fin 0\<rparr>) \<and>
   capture_disabled (Some \<lparr>isSharp = False, blurScore = Fin 0, hasDocumentEdges = True,
       documentCorners = Some [], qualityMessage = msg_blurry, fillPercentage = Fin 50\<rparr>) \<and>
   \<not> capture_disabled (Some \<lparr>isSharp = True, blurScore = Fin 150, hasDocumentEdges = True,
       documentCorners = Some [], qualityMessage = msg_ready, fillPercentage = Fin 50\<rparr>)"
  using capture_gating [of "\<lparr>isSharp = True, blurScore = Fin 150, hasDocumentEdges = False,
       documentCorners = None, qualityMessage = msg_position, fillPercentage = Fin 0\<rparr>"]
    capture_gating [of "\<lparr>isSharp = False, blurScore = Fin 0, hasDocumentEdges = True,
       documentCorners = Some [], qualityMessage = msg_blurry, fillPercentage = Fin 50\<rparr>"]
    capture_gating [of "\<lparr>isSharp = True, blurScore = Fin 150, hasDocumentEdges = True,
       documentCorners = Some [], qualityMessage = msg_ready, fillPercentage = Fin 50\<rparr>"]
  by simp

text \<open>
  Claim C2 as stated fails. The pipeline has no guard on small frames: for a 2-by-2 frame
  \<open>checkQuality\<close> raises nothing and returns a ScanQuality whose blur score is
  \<^verbatim>\<open>NaN\<close>, the value of \<open>0 / ((2 - 2) * (2 - 2))\<close>.
\<close>

theorem small_frame_counterexample:
  "checkQuality \<lparr>videoWidth = 2, videoHeight = 2, raster = replicate 16 0\<rparr> =
     Inr \<lparr>isSharp = False, blurScore = NaN, hasDocumentEdges = False, documentCorners = None,
          qualityMessage = msg_position, fillPercentage = Fin 0\<rparr>"
  by code_simp

text \<open>
  Claim C2, amended. A frame whose width or height is below 3 never enters the body of the
  Laplacian iteration. When the width or height is 0 the canvas call \<open>getImageData\<close> raises
  \<open>IndexSizeError\<close>; that is the only rejection. A frame with a width or height of 1 or
  2 is not rejected: \<open>checkQuality\<close> returns a ScanQuality whose blur score is
  \<open>0 / ((W - 2) * (H - 2))\<close>, which is \<^verbatim>\<open>NaN\<close> when \<open>W\<close> or \<open>H\<close> is 2 and zero
  otherwise, and whose \<open>isSharp\<close> is false.
\<close>

theorem small_frame_not_rejected:
  assumes "videoWidth v < 3 \<or> videoHeight v < 3"
  shows "if videoWidth v = 0 \<or> videoHeight v = 0 then checkQuality v = Inl IndexSizeError
         else \<exists>q. checkQuality v = Inr q \<and> \<not> isSharp q \<and>
                  blurScore q = (if videoWidth v = 2 \<or> videoHeight v = 2 then NaN else Fin 0)"
proof (cases "videoWidth v = 0 \<or> videoHeight v = 0")
  case True
  then show ?thesis by (auto simp: checkQuality_def getImageData_def)
next
  case False
  let ?img = "\<lparr>data = raster v, width = videoWidth v, height = videoHeight v\<rparr>"
  from False have g: "getImageData v = Inr ?img" by (simp add: getImageData_def)
  have b: "calculateBlurScore ?img = (if videoWidth v = 2 \<or> videoHeight v = 2 then NaN else Fin 0)"
    using small_frame_blur [of ?img] False assms by simp
  from checkQuality_fields [OF g] obtain q where
    "checkQuality v = Inr q" "blurScore q = calculateBlurScore ?img"
    "isSharp q = js_gt (calculateBlurScore ?img) 100" by blast
  with b False show ?thesis by auto
qed

theorem small_frame_not_rejected_witness:
  "videoWidth frame2 < 3 \<and> (\<exists>q. checkQuality frame2 = Inr q \<and> \<not> isSharp q \<and> blurScore q = NaN)"
  using small_frame_not_rejected [of frame2] by (simp add: frame2_def)

text \<open>
  Claim C3 as stated fails. On a 3-by-3 frame whose exact mean squared response is
  exactly 100, hence not above 100, the source computes the blur score
  \<open>1759218688327681 / 17592186044416\<close> (100.00000476837164) and classifies the frame
  as sharp: the luma buffer holds binary32 values and the sums are binary64.
\<close>

theorem blur_score_counterexample:
  "checkQuality faint3 =
     Inr \<lparr>isSharp = True, blurScore = Fin (1759218688327681 / 17592186044416),
          hasDocumentEdges = False, documentCorners = None,
          qualityMessage = msg_position, fillPercentage = Fin 0\<rparr> \<and>
   exact_mean_squared_response \<lparr>data = raster faint3, width = 3, height = 3\<rparr> = 100"
  using checkQuality_faint3 faint3_exact by (rule conjI)

text \<open>
  Claim C3, amended. For every frame with width and height at least 3 (whose data fits a
  typed array), the blur score is the claim's formula as binary64 arithmetic evaluates
  it: the luma \<open>0.299R + 0.587G + 0.114B\<close> computed in binary64 and stored as binary32,
  the response of the 8-neighbour Laplacian kernel evaluated cell by cell, the squared
  responses accumulated over the interior pixels row by row, and the total divided by
  \<open>(W - 2) * (H - 2)\<close>, each operation rounded to nearest. The frame is classified sharp
  exactly when this computed score is strictly greater than 100.
\<close>

theorem blur_score_rounded:
  assumes "getImageData v = Inr img" "wf_ImageData img" "3 \<le> width img" "3 \<le> height img"
    and "length (data img) < 2 ^ 53"
  shows "calculateBlurScore img = Fin (mean_squared_response img) \<and>
         (\<exists>q. checkQuality v = Inr q \<and> blurScore q = Fin (mean_squared_response img) \<and>
              isSharp q = (100 < mean_squared_response img))"
proof -
  have b: "calculateBlurScore img = Fin (mean_squared_response img)"
    using assms(2-5) by (rule calculateBlurScore_mean)
  from checkQuality_fields [OF assms(1)] obtain q where
    "checkQuality v = Inr q" "blurScore q = calculateBlurScore img"
    "isSharp q = js_gt (calculateBlurScore img) 100" by blast
  with b show ?thesis by auto
qed

theorem blur_score_rounded_witness:
  "calculateBlurScore \<lparr>data = raster faint3, width = 3, height = 3\<rparr>
     = Fin (mean_squared_response \<lparr>data = raster faint3, width = 3, height = 3\<rparr>) \<and>
   (\<exists>q. checkQuality faint3 = Inr q \<and> isSharp q \<and>
        blurScore q = Fin (1759218688327681 / 17592186044416))"
proof -
  have "length (data \<lparr>data = raster faint3, width = 3, height = 3\<rparr>) < 2 ^ 53"
    using faint3_wf by (simp add: wf_ImageData_def)
  from blur_score_rounded [OF faint3_image faint3_wf _ _ this] checkQuality_faint3
  show ?thesis by simp
qed




text \<open>
  Claim C5. In every ScanQuality that \<open>checkQuality\<close> returns, \<open>hasDocumentEdges\<close> is
  (corners present and fill percentage above 40), and the guidance message is chosen by
  first match: no document edges, the position message; else fill percentage below 40,
  the move-closer message; else not sharp, the blurry message; otherwise the ready message.
  In particular the message is the position message whenever \<open>hasDocumentEdges\<close> is
  false, whatever the sharpness.
\<close>

theorem quality_classifier:
  assumes "checkQuality v = Inr q"
  shows "hasDocumentEdges q = (documentCorners q \<noteq> None \<and> js_gt (fillPercentage q) 40) \<and>
         qualityMessage q =
           (if \<not> hasDocumentEdges q then msg_position
            else if js_lt (fillPercentage q) 40 then msg_closer
            else if \<not> isSharp q then msg_blurry
            else msg_ready) \<and>
         (\<not> hasDocumentEdges q \<longrightarrow> qualityMessage q = msg_position)"
  using assms by (auto simp: checkQuality_def Let_def split: sum.splits prod.splits)

theorem quality_classifier_witness:
  "\<exists>q. checkQuality frame2 = Inr q \<and> \<not> hasDocumentEdges q \<and> qualityMessage q = msg_position"
  using quality_classifier [OF checkQuality_frame2] checkQuality_frame2 by simp

text \<open>
  Claim C6. No ScanQuality that \<open>checkQuality\<close> returns carries the move-closer message:
  its branch is reached only when \<open>hasDocumentEdges\<close> holds, which requires a fill
  percentage above 40.
\<close>

theorem move_closer_unreachable:
  assumes "checkQuality v = Inr q"
  shows "qualityMessage q \<noteq> msg_closer"
  using assms msg_closer_distinct js_gt_not_lt
  by (auto simp: checkQuality_def Let_def split: sum.splits prod.splits if_splits)

theorem move_closer_unreachable_witness:
  "\<exists>q. checkQuality frame2 = Inr q \<and> qualityMessage q \<noteq> msg_closer"
  using move_closer_unreachable [OF checkQuality_frame2] checkQuality_frame2 by simp



text \<open>
  Claim C8. In the Captured state, with the remounted webcam exposing its video element,
  the retake action discards the still and returns the session to Scanning with the
  polling timer running; after any number of further ticks, a tick on a frame of non-zero
  size publishes that frame's ScanQuality, and the session stays in Scanning.
\<close>

theorem retake_round_trip:
  assumes "Captured s" "camera = Some v"
  shows "capturedImage (click_retake camera s) = None \<and>
         Scanning (click_retake camera s) \<and>
         interval (click_retake camera s) \<and>
         (0 < videoWidth v' \<and> 0 < videoHeight v' \<longrightarrow>
            (\<exists>q. checkQuality v' = Inr q \<and>
                 scanQuality (tick (Some v') (run_ticks frames (click_retake camera s))) = Some q) \<and>
            Scanning (tick (Some v') (run_ticks frames (click_retake camera s))))"
proof -
  let ?r = "click_retake camera s"
  have r: "?r = s\<lparr>capturedImage := None, isScanning := True, interval := True\<rparr>"
    using assms
    by (simp add: click_retake_def Captured_def handleRetake_def commit_def webcamRef_def
        no_image_def)
  have 1: "capturedImage ?r = None" "Scanning ?r" "interval ?r"
    by (simp_all add: r Scanning_def no_image_def)
  let ?t = "run_ticks frames ?r"
  have t: "capturedImage ?t = None" "isScanning ?t" "interval ?t"
    using run_ticks_keeps [of frames ?r] 1 by (simp_all add: Scanning_def)
  have 2: "(\<exists>q. checkQuality v' = Inr q \<and> scanQuality (tick (Some v') ?t) = Some q) \<and>
      Scanning (tick (Some v') ?t)"
    if "0 < videoWidth v' \<and> 0 < videoHeight v'"
  proof -
    from that obtain q where q: "checkQuality v' = Inr q"
      using checkQuality_returns [of v'] by blast
    have "scanQuality (tick (Some v') ?t) = Some q"
      using t q by (intro tick_publishes) (simp_all add: no_image_def)
    moreover have "Scanning (tick (Some v') ?t)"
      using t by (simp add: Scanning_def no_image_def tick_keeps)
    ultimately show ?thesis using q by blast
  qed
  from 1 2 show ?thesis by blast
qed

theorem retake_round_trip_witness:
  "Captured captured_state \<and>
   Scanning (click_retake (Some frame2) captured_state) \<and>
   (\<exists>q. checkQuality frame2 = Inr q \<and>
        scanQuality (tick (Some frame2) (run_ticks [] (click_retake (Some frame2) captured_state)))
          = Some q)"
proof -
  have 1: "Captured captured_state"
    by (simp add: Captured_def captured_state_def no_image_def)
  have 2: "0 < videoWidth frame2 \<and> 0 < videoHeight frame2" by (simp add: frame2_def)
  from retake_round_trip [OF 1 refl, of frame2 frame2 "[]"] 1 2 show ?thesis by blast
qed

text \<open>
  Claim C9. For every uniformly coloured frame of width and height at least 3, the blur
  score is 0 and \<open>isSharp\<close> is false.
\<close>

theorem uniform_frame:
  assumes "getImageData v = Inr img" "wf_ImageData img" "3 \<le> width img" "3 \<le> height img"
    and "uniformly_coloured img"
  shows "calculateBlurScore img = Fin 0 \<and>
         (\<exists>q. checkQuality v = Inr q \<and> blurScore q = Fin 0 \<and> \<not> isSharp q)"
proof -
  have b: "calculateBlurScore img = Fin 0"
    using assms(2-5) by (rule uniform_blur)
  from checkQuality_fields [OF assms(1)] obtain q where
    "checkQuality v = Inr q" "blurScore q = calculateBlurScore img"
    "isSharp q = js_gt (calculateBlurScore img) 100" by blast
  with b show ?thesis by auto
qed

theorem uniform_frame_witness:
  "\<exists>q. checkQuality grey3 = Inr q \<and> blurScore q = Fin 0 \<and> \<not> isSharp q"
  using uniform_frame [OF grey3_image grey3_wf _ _ grey3_uniform] by simp

text \<open>
  Claim C10. In every ScanQuality that \<open>checkQuality\<close> returns, the fill percentage is
  either exactly 0 or strictly greater than 25: no value in the interval from 0
  (exclusive) to 25 (inclusive) is reported.
\<close>

theorem fill_percentage_gap:
  assumes "checkQuality v = Inr q"
  shows "fillPercentage q = Fin 0 \<or> (\<exists>r. fillPercentage q = Fin r \<and> 25 < r)"
proof -
  from assms obtain img where g: "getImageData v = Inr img"
    by (auto simp: checkQuality_def split: sum.splits)
  then have "0 < width img" "0 < height img"
    by (auto simp: getImageData_def split: if_splits)
  then have "snd (detectDocumentEdges img) = Fin 0
      \<or> (\<exists>r. snd (detectDocumentEdges img) = Fin r \<and> 25 < r)"
    by (rule detectDocumentEdges_gap)
  moreover from checkQuality_fields [OF g] assms
  have "fillPercentage q = snd (detectDocumentEdges img)" by auto
  ultimately show ?thesis by simp
qed

theorem fill_percentage_gap_witness:
  "\<exists>q. checkQuality frame2 = Inr q \<and> fillPercentage q = Fin 0"
  using fill_percentage_gap [OF checkQuality_frame2] checkQuality_frame2 by simp

end
